theory Spec2Isabelle
  imports Complex_Main "HOL-Library.Word" "HOL-Library.Log_Nat"
begin

unbundle bit_operations_syntax

section \<open>Python values, exceptions and the byte source\<close>

type_synonym byte = "8 word"

text \<open>The exceptions the program can raise: \<open>struct.error\<close>, \<open>KeyError\<close>,
  \<open>IndexError\<close>, \<open>TypeError\<close> and \<open>UnicodeDecodeError\<close>.\<close>

datatype py_error = StructError | KeyError | IndexError | TypeError | UnicodeDecodeError

text \<open>A Python float by its value: a finite double is the rational number it denotes
  (so \<open>-0.0\<close> and \<open>0.0\<close>, which compare equal in Python, are one value); the
  infinities and NaN only come out of \<open>struct.unpack('>f', ...)\<close>.\<close>

datatype py_float = Finite rat | PosInf | NegInf | NaN

datatype py_value = IntV int | FloatV py_float | StrV string

text \<open>The file object opened with mode \<open>'rb'\<close>: its bytes and the current position.
  \<open>stream.read(n)\<close> returns at most \<open>n\<close> bytes (fewer at the end of the file, never an
  error) and advances the position by what it returned; \<open>stream.seek(0, 1)\<close> moves by
  zero bytes from the current position.\<close>

record stream =
  content :: "byte list"
  pos :: nat

definition read :: "nat \<Rightarrow> stream \<Rightarrow> byte list \<times> stream" where
  "read n s = (let bs = take n (drop (pos s) (content s)) in (bs, s\<lparr>pos := pos s + length bs\<rparr>))"

definition seek_cur0 :: "stream \<Rightarrow> stream" where
  "seek_cur0 s = s"

text \<open>\<open>xs[i]\<close> for a non-negative index: IndexError out of range.\<close>

definition get_item :: "'a list \<Rightarrow> nat \<Rightarrow> py_error + 'a" where
  "get_item xs i = (if i < length xs then Inr (xs ! i) else Inl IndexError)"

subsection \<open>The \<open>struct\<close> formats the program uses\<close>

text \<open>\<open>struct.unpack(fmt, buf)\<close> raises \<open>struct.error\<close> unless \<open>buf\<close> has exactly the
  size of the format; with the prefix \<open>>\<close> the sizes are standard (b, c: 1; h: 2; l, f: 4)
  and the byte order is big-endian.\<close>

definition unpack_b :: "byte list \<Rightarrow> py_error + int" where
  "unpack_b bs = (case bs of [b0] \<Rightarrow> Inr (sint b0) | _ \<Rightarrow> Inl StructError)"

definition unpack_h :: "byte list \<Rightarrow> py_error + int" where
  "unpack_h bs = (case bs of
       [b0, b1] \<Rightarrow> Inr (sint (word_cat b0 b1 :: 16 word))
     | _ \<Rightarrow> Inl StructError)"

definition unpack_l :: "byte list \<Rightarrow> py_error + int" where
  "unpack_l bs = (case bs of
       [b0, b1, b2, b3] \<Rightarrow>
         Inr (sint (word_cat (word_cat b0 b1 :: 16 word) (word_cat b2 b3 :: 16 word) :: 32 word))
     | _ \<Rightarrow> Inl StructError)"

text \<open>The value of a 32-bit pattern read as an IEEE 754 single: bit 31 the sign, bits
  30..23 the biased exponent, bits 22..0 the fraction. Every single is a double, so the
  conversion to a Python float is exact.\<close>

definition single_of_word :: "32 word \<Rightarrow> py_float" where
  "single_of_word w =
     (let s = bit w 31;
          e = unat (drop_bit 23 w AND 0xFF);
          f = unat (w AND 0x7FFFFF);
          sg = (if s then - 1 else 1 :: rat)
      in if e = 255 then (if f = 0 then (if s then NegInf else PosInf) else NaN)
         else if e = 0 then Finite (sg * of_nat f * 2 powi (- 149))
         else Finite (sg * of_nat (2 ^ 23 + f) * 2 powi (int e - 150)))"

definition unpack_f :: "byte list \<Rightarrow> py_error + py_float" where
  "unpack_f bs = (case bs of
       [b0, b1, b2, b3] \<Rightarrow>
         Inr (single_of_word
               (word_cat (word_cat b0 b1 :: 16 word) (word_cat b2 b3 :: 16 word) :: 32 word))
     | _ \<Rightarrow> Inl StructError)"

definition unpack_c :: "byte list \<Rightarrow> py_error + byte" where
  "unpack_c bs = (case bs of [b0] \<Rightarrow> Inr b0 | _ \<Rightarrow> Inl StructError)"

text \<open>\<open>bytes.decode("utf-8")\<close> of a single byte: the one-character string for a byte
  below 0x80, UnicodeDecodeError for any other (a lead or continuation byte alone).\<close>

definition decode_utf8_1 :: "byte \<Rightarrow> py_error + string" where
  "decode_utf8_1 b = (if b < 0x80 then Inr [char_of (unat b)] else Inl UnicodeDecodeError)"

section \<open>Double-precision arithmetic\<close>

text \<open>Python's float operations are IEEE 754 binary64 with round-to-nearest, ties to
  even: the result of an operation is the exact result rounded to 53 significant bits.
  The exponent range is not modelled: every value that \<open>ibm370_to_ieee754\<close> computes is
  zero or has a magnitude between \<open>2^-312\<close> and \<open>2^64\<close>, far inside the normal range.\<close>

definition ilog2 :: "rat \<Rightarrow> int" where
  "ilog2 x =
     (let p = fst (quotient_of x); q = snd (quotient_of x);
          d = int (floorlog 2 (nat p)) - int (floorlog 2 (nat q))
      in if 2 powi d \<le> x then d else d - 1)"

definition round_half_even :: "rat \<Rightarrow> int" where
  "round_half_even r =
     (let f = \<lfloor>r\<rfloor>; d = r - of_int f
      in if d < 1 / 2 then f else if 1 / 2 < d then f + 1
         else if even f then f else f + 1)"

definition fl_round :: "rat \<Rightarrow> rat" where
  "fl_round x =
     (if x = 0 then 0
      else let q = ilog2 \<bar>x\<bar> - 52
           in of_int (round_half_even (x / 2 powi q)) * 2 powi q)"

definition fl_of_int :: "int \<Rightarrow> rat" where
  "fl_of_int n = fl_round (of_int n)"

definition fl_add :: "rat \<Rightarrow> rat \<Rightarrow> rat" where
  "fl_add x y = fl_round (x + y)"

definition fl_mul :: "rat \<Rightarrow> rat \<Rightarrow> rat" where
  "fl_mul x y = fl_round (x * y)"

definition fl_div :: "rat \<Rightarrow> rat \<Rightarrow> rat" where
  "fl_div x y = fl_round (x / y)"

definition ldexp :: "rat \<Rightarrow> int \<Rightarrow> rat" where
  "ldexp x e = fl_round (x * 2 powi e)"

section \<open>\<open>ibm370_to_ieee754\<close>\<close>

text \<open>What the function prints when \<open>debug\<close> is set.\<close>

datatype print_event = InputHex "byte list" | ConvertedValue rat

text \<open>The loop \<open>for i in range(1, 8)\<close> over the pair (mantissa, divisor).\<close>

fun mantissa_loop :: "byte list \<Rightarrow> nat list \<Rightarrow> rat \<times> rat \<Rightarrow> py_error + rat \<times> rat" where
  "mantissa_loop ibm_bytes [] md = Inr md"
| "mantissa_loop ibm_bytes (i # is) (mantissa, divisor) =
     (case get_item ibm_bytes i of
        Inl e \<Rightarrow> Inl e
      | Inr b \<Rightarrow>
          mantissa_loop ibm_bytes is
            (fl_add mantissa (fl_div (fl_of_int (uint b)) divisor), fl_mul divisor 256))"

definition ibm370_to_ieee754 :: "byte list \<Rightarrow> bool \<Rightarrow> (py_error + rat) \<times> print_event list" where
  "ibm370_to_ieee754 ibm_bytes debug =
     (let out1 = (if debug then [InputHex ibm_bytes] else [])
      in case get_item ibm_bytes 0 of
           Inl e \<Rightarrow> (Inl e, out1)
         | Inr b0 \<Rightarrow>
            (let sign = (if uint b0 AND 0x80 \<noteq> 0 then - 1 else 1 :: rat);
                 exponent2 = 4 * ((uint b0 AND 0x7f) - 64)
             in case mantissa_loop ibm_bytes [1..<8] (0, 256) of
                  Inl e \<Rightarrow> (Inl e, out1)
                | Inr (mantissa, divisor) \<Rightarrow>
                    (let ieee754_value = fl_mul sign (ldexp mantissa exponent2)
                     in (Inr ieee754_value,
                         out1 @ (if debug then [ConvertedValue ieee754_value] else [])))))"

section \<open>\<open>readStream\<close>\<close>

text \<open>The list \<open>[rec_size, [rec_type, dat_type], rec_data]\<close> that \<open>readStream\<close> returns.\<close>

record gds_record =
  rec_size :: int
  rec_type :: int
  dat_type :: int
  rec_data :: "byte list list"

text \<open>\<open>readStream\<close> returns the list, or \<open>-1\<close> from its \<open>except:\<close> clause.\<close>

datatype read_result = Minus1 | Rec gds_record

definition dat_size :: "int \<rightharpoonup> nat" where
  "dat_size = map_of [(0x00, 1), (0x01, 1), (0x02, 2), (0x03, 4), (0x04, 4), (0x05, 8), (0x06, 1)]"

text \<open>The loop \<open>for i in range(0, n)\<close> appending \<open>stream.read(w)\<close> to \<open>rec_data\<close>.\<close>

fun read_chunks :: "nat \<Rightarrow> nat \<Rightarrow> stream \<Rightarrow> byte list list \<Rightarrow> byte list list \<times> stream" where
  "read_chunks 0 w s chunks = (chunks, s)"
| "read_chunks (Suc n) w s chunks =
     (let (c, s') = read w s in read_chunks n w (seek_cur0 s') (chunks @ [c]))"

text \<open>The body of the \<open>try\<close>: the first exception ends it, at the position reached.\<close>

definition readStream_try :: "stream \<Rightarrow> (py_error + gds_record) \<times> stream" where
  "readStream_try s0 =
     (let (b2, s1) = read 2 s0 in
      case unpack_h b2 of Inl e \<Rightarrow> (Inl e, s1) | Inr rsize \<Rightarrow>
     (let (b1, s2) = read 1 (seek_cur0 s1) in
      case unpack_b b1 of Inl e \<Rightarrow> (Inl e, s2) | Inr rtype \<Rightarrow>
     (let (b1', s3) = read 1 (seek_cur0 s2) in
      case unpack_b b1' of Inl e \<Rightarrow> (Inl e, s3) | Inr dtype \<Rightarrow>
     (case dat_size dtype of None \<Rightarrow> (Inl KeyError, seek_cur0 s3) | Some w \<Rightarrow>
     (let (chunks, s4) = read_chunks (nat ((rsize - 4) div int w)) w (seek_cur0 s3) []
      in (Inr \<lparr>rec_size = rsize, rec_type = rtype, dat_type = dtype, rec_data = chunks\<rparr>,
          s4))))))"

definition readStream :: "stream \<Rightarrow> read_result \<times> stream" where
  "readStream s =
     (case readStream_try s of (Inl e, s') \<Rightarrow> (Minus1, s') | (Inr r, s') \<Rightarrow> (Rec r, s'))"

section \<open>\<open>appendName\<close> and \<open>extractData\<close>\<close>

definition name_list :: "int \<rightharpoonup> string" where
  "name_list = map_of
     [(0x00, ''HEADER''), (0x01, ''BGNLIB''), (0x02, ''LIBNAME''), (0x03, ''UNITS''),
      (0x04, ''ENDLIB''), (0x05, ''BGNSTR''), (0x06, ''STRNAME''), (0x07, ''ENDSTR''),
      (0x08, ''BONDARY''), (0x09, ''PATH''), (0x0A, ''SERF''), (0x0B, ''AREF''),
      (0x0C, ''TEXT''), (0x0D, ''LAYER''), (0x0E, ''DATATYPE''), (0x0F, ''WIDTH''),
      (0x10, ''XY''), (0x11, ''ENDEL''), (0x12, ''SNAME''), (0x13, ''COLROW''),
      (0x15, ''NODE''), (0x16, ''TEXTTYPE''), (0x17, ''PRESENTATION''), (0x19, ''STRING''),
      (0x1A, ''STRANS''), (0x1B, ''MAG''), (0x1C, ''ANGLE''), (0x1F, ''REFLIBS''),
      (0x20, ''FONTS''), (0x21, ''PATHTYPE''), (0x22, ''GENERATIONS''),
      (0x23, ''ATTRATABLE''), (0x26, ''ELFLAGS''), (0x2A, ''NODETYPE''),
      (0x2B, ''PROPATTR''), (0x2C, ''PROPVALUE''), (0x2D, ''BOX''), (0x2E, ''BOXTYPE''),
      (0x2F, ''PLEX''), (0x32, ''TAPENUM''), (0x33, ''TAPECODE''), (0x36, ''FORMAT''),
      (0x37, ''MASK''), (0x38, ''ENDMASKS'')]"

text \<open>Subscripting \<open>-1\<close> raises TypeError; a missing key raises KeyError.\<close>

definition appendName :: "read_result \<Rightarrow> py_error + string" where
  "appendName record =
     (case record of
        Minus1 \<Rightarrow> Inl TypeError
      | Rec r \<Rightarrow> (case name_list (rec_type r) of None \<Rightarrow> Inl KeyError | Some n \<Rightarrow> Inr n))"

text \<open>The loops \<open>for i in range(0, n): data.append(f(record[2][i]))\<close>: the first
  exception ends the loop.\<close>

fun extract_loop :: "(byte list \<Rightarrow> py_error + py_value) \<Rightarrow> byte list list \<Rightarrow> nat list \<Rightarrow>
    py_value list \<Rightarrow> py_error + py_value list" where
  "extract_loop f chunks [] data = Inr data"
| "extract_loop f chunks (i # is) data =
     (case get_item chunks i of
        Inl e \<Rightarrow> Inl e
      | Inr c \<Rightarrow> (case f c of
                   Inl e \<Rightarrow> Inl e
                 | Inr v \<Rightarrow> extract_loop f chunks is (data @ [v])))"

definition map_result :: "('a \<Rightarrow> 'b) \<Rightarrow> py_error + 'a \<Rightarrow> py_error + 'b" where
  "map_result g r = (case r of Inl e \<Rightarrow> Inl e | Inr v \<Rightarrow> Inr (g v))"

definition decode_char :: "byte list \<Rightarrow> py_error + py_value" where
  "decode_char c = (case unpack_c c of Inl e \<Rightarrow> Inl e | Inr b \<Rightarrow> map_result StrV (decode_utf8_1 b))"

definition extractData :: "read_result \<Rightarrow> py_error + py_value list" where
  "extractData record =
     (case record of
        Minus1 \<Rightarrow> Inl TypeError
      | Rec r \<Rightarrow>
         (if dat_type r = 0x00 then Inr []
          else if dat_type r = 0x01 then Inr []
          else if dat_type r = 0x02 then
            extract_loop (\<lambda>c. map_result IntV (unpack_h c)) (rec_data r)
              [0..<nat ((rec_size r - 4) div 2)] []
          else if dat_type r = 0x03 then
            extract_loop (\<lambda>c. map_result IntV (unpack_l c)) (rec_data r)
              [0..<nat ((rec_size r - 4) div 4)] []
          else if dat_type r = 0x04 then
            extract_loop (\<lambda>c. map_result FloatV (unpack_f c)) (rec_data r)
              [0..<nat ((rec_size r - 4) div 4)] []
          else if dat_type r = 0x05 then
            extract_loop (\<lambda>c. map_result (FloatV \<circ> Finite) (fst (ibm370_to_ieee754 c False)))
              (rec_data r) [0..<nat ((rec_size r - 4) div 8)] []
          else
            extract_loop decode_char (rec_data r) [0..<nat (rec_size r - 4)] []))"

section \<open>The standard interpretations of a chunk, as the specification words them\<close>







section \<open>The driver loop of \<open>main\<close>\<close>

text \<open>A record that \<open>readStream\<close> returns has consumed its four header bytes, so the
  loop below moves forward in the file on every iteration that does not stop it.\<close>

lemma read_content [simp]: "content (snd (read n s)) = content s"
  by (simp add: read_def Let_def)

lemma read_pos: "pos (snd (read n s)) = pos s + length (fst (read n s))"
  by (simp add: read_def Let_def)

lemma read_length: "length (fst (read n s)) = min n (length (content s) - pos s)"
  by (simp add: read_def Let_def)

lemma read_chunks_content [simp]: "content (snd (read_chunks n w s acc)) = content s"
  by (induction n arbitrary: s acc) (simp_all add: split_beta seek_cur0_def)

lemma read_chunks_pos_mono: "pos s \<le> pos (snd (read_chunks n w s acc))"
proof (induction n arbitrary: s acc)
  case 0 show ?case by simp
next
  case (Suc n)
  have "pos s \<le> pos (snd (read w s))" by (simp add: read_pos)
  also have "\<dots> \<le> pos (snd (read_chunks n w (snd (read w s)) (acc @ [fst (read w s)])))"
    by (rule Suc.IH)
  finally show ?case by (simp add: split_beta seek_cur0_def)
qed

lemma readStream_try_content [simp]: "content (snd (readStream_try s)) = content s"
  by (simp add: readStream_try_def split_beta seek_cur0_def split: sum.splits option.splits)


lemma unpack_h_Inr: "unpack_h bs = Inr v \<Longrightarrow> length bs = 2"
  by (auto simp: unpack_h_def split: list.splits)

lemma unpack_b_Inr: "unpack_b bs = Inr v \<Longrightarrow> length bs = 1"
  by (auto simp: unpack_b_def split: list.splits)




lemma drop_pos_add:
  assumes "drop (pos s) (content s) = xs @ rest" and "length xs = n"
  shows "drop (pos s + n) (content s) = rest"
proof -
  have "drop (pos s + n) (content s) = drop n (drop (pos s) (content s))"
    by (simp add: add.commute)
  then show ?thesis using assms by simp
qed

lemma read_exact:
  assumes "drop (pos s) (content s) = xs @ rest" and "length xs = n"
  shows "read n s = (xs, s\<lparr>pos := pos s + n\<rparr>)"
  using assms by (auto simp: read_def Let_def)

lemma read_eof:
  assumes "drop (pos s) (content s) = []"
  shows "read n s = ([], s)"
  using assms by (simp add: read_def Let_def)

lemma readStream_try_header:
  assumes "drop (pos s) (content s) = b0 # b1 # t # d # rest"
  shows "readStream_try s =
     (case dat_size (sint d) of
        None \<Rightarrow> (Inl KeyError, s\<lparr>pos := pos s + 4\<rparr>)
      | Some w \<Rightarrow>
         (let (chunks, s4) =
            read_chunks (nat ((sint (word_cat b0 b1 :: 16 word) - 4) div int w)) w
              (s\<lparr>pos := pos s + 4\<rparr>) []
          in (Inr \<lparr>rec_size = sint (word_cat b0 b1 :: 16 word), rec_type = sint t,
                   dat_type = sint d, rec_data = chunks\<rparr>, s4)))"
proof -
  have r1: "read 2 s = ([b0, b1], s\<lparr>pos := pos s + 2\<rparr>)"
    by (rule read_exact [where rest = "t # d # rest"]) (simp_all add: assms)
  have d1: "drop (pos s + 2) (content s) = t # d # rest"
    by (rule drop_pos_add [where xs = "[b0, b1]"]) (simp_all add: assms)
  have r2: "read 1 (s\<lparr>pos := pos s + 2\<rparr>) = ([t], s\<lparr>pos := pos s + 3\<rparr>)"
    using read_exact [of "s\<lparr>pos := pos s + 2\<rparr>" "[t]" "d # rest" 1] d1 by simp
  have d2: "drop (pos s + 3) (content s) = d # rest"
    by (rule drop_pos_add [where xs = "[b0, b1, t]"]) (simp_all add: assms)
  have r3: "read 1 (s\<lparr>pos := pos s + 3\<rparr>) = ([d], s\<lparr>pos := pos s + 4\<rparr>)"
    using read_exact [of "s\<lparr>pos := pos s + 3\<rparr>" "[d]" rest 1] d2 by simp
  show ?thesis
    using r1 r2 r3
    by (simp add: readStream_try_def seek_cur0_def unpack_h_def unpack_b_def
        split: option.splits)
qed

lemma short_list_cases:
  "length xs < 4 \<Longrightarrow>
     xs = [] \<or> (\<exists>a. xs = [a]) \<or> (\<exists>a b. xs = [a, b]) \<or> (\<exists>a b c. xs = [a, b, c])"
  by (cases xs; simp; cases "tl xs"; simp; cases "tl (tl xs)"; simp; cases "tl (tl (tl xs))"; auto)

lemma long_list_cases:
  "4 \<le> length xs \<Longrightarrow> \<exists>a b c d rest. xs = a # b # c # d # rest"
  by (cases xs; simp; cases "tl xs"; simp; cases "tl (tl xs)"; simp; cases "tl (tl (tl xs))"; auto)

lemma readStream_try_short:
  assumes "length (drop (pos s) (content s)) < 4"
  shows "\<exists>e s'. readStream_try s = (Inl e, s')"
proof -
  let ?xs = "drop (pos s) (content s)"
  from short_list_cases [OF assms]
  consider "?xs = []" | a where "?xs = [a]" | a b where "?xs = [a, b]"
    | a b c where "?xs = [a, b, c]" by blast
  then show ?thesis
  proof cases
    case 1
    then show ?thesis
      by (simp add: readStream_try_def read_def Let_def unpack_h_def)
  next
    case 2
    then show ?thesis
      by (simp add: readStream_try_def read_def Let_def unpack_h_def)
  next
    case 3
    have r1: "read 2 s = ([a, b], s\<lparr>pos := pos s + 2\<rparr>)"
      by (rule read_exact [where rest = "[]"]) (simp_all add: 3)
    have d1: "drop (pos s + 2) (content s) = []"
      by (rule drop_pos_add [where xs = "[a, b]"]) (simp_all add: 3)
    have r2: "read 1 (s\<lparr>pos := pos s + 2\<rparr>) = ([], s\<lparr>pos := pos s + 2\<rparr>)"
      using read_eof [of "s\<lparr>pos := pos s + 2\<rparr>" 1] d1 by simp
    show ?thesis
      using r1 r2 by (simp add: readStream_try_def seek_cur0_def unpack_h_def unpack_b_def)
  next
    case 4
    have r1: "read 2 s = ([a, b], s\<lparr>pos := pos s + 2\<rparr>)"
      by (rule read_exact [where rest = "[c]"]) (simp_all add: 4)
    have d1: "drop (pos s + 2) (content s) = [c]"
      by (rule drop_pos_add [where xs = "[a, b]"]) (simp_all add: 4)
    have r2: "read 1 (s\<lparr>pos := pos s + 2\<rparr>) = ([c], s\<lparr>pos := pos s + 3\<rparr>)"
      using read_exact [of "s\<lparr>pos := pos s + 2\<rparr>" "[c]" "[]" 1] d1 by simp
    have d2: "drop (pos s + 3) (content s) = []"
      by (rule drop_pos_add [where xs = "[a, b, c]"]) (simp_all add: 4)
    have r3: "read 1 (s\<lparr>pos := pos s + 3\<rparr>) = ([], s\<lparr>pos := pos s + 3\<rparr>)"
      using read_eof [of "s\<lparr>pos := pos s + 3\<rparr>" 1] d2 by simp
    show ?thesis
      using r1 r2 r3
      by (simp add: readStream_try_def seek_cur0_def unpack_h_def unpack_b_def)
  qed
qed


lemma readStream_Rec_advance:
  assumes "readStream s = (Rec r, s')"
  shows "length (content s') - pos s' < length (content s) - pos s"
proof -
  have tr: "readStream_try s = (Inr r, s')"
    using assms by (auto simp: readStream_def split: prod.splits sum.splits)
  have "\<not> length (drop (pos s) (content s)) < 4"
    using readStream_try_short [of s] tr by auto
  then obtain b0 b1 t d rest where xs: "drop (pos s) (content s) = b0 # b1 # t # d # rest"
    using long_list_cases [of "drop (pos s) (content s)"] by (auto simp: not_less)
  have "length (drop (pos s) (content s)) = 4 + length rest"
    by (simp add: xs)
  then have len: "pos s + 4 \<le> length (content s)"
    by simp
  obtain w where w: "dat_size (sint d) = Some w"
    using tr readStream_try_header [OF xs] by (auto split: option.splits)
  let ?n = "nat ((sint (word_cat b0 b1 :: 16 word) - 4) div int w)"
  have s': "s' = snd (read_chunks ?n w (s\<lparr>pos := pos s + 4\<rparr>) [])"
    using tr readStream_try_header [OF xs] w by (auto simp: split_beta)
  have "pos s + 4 \<le> pos s'"
    using read_chunks_pos_mono [of "s\<lparr>pos := pos s + 4\<rparr>" ?n w "[]"] s' by simp
  moreover have "content s' = content s" using s' by simp
  ultimately show ?thesis using len by simp
qed

text \<open>The \<open>while True\<close> loop. Its result is the list \<open>asciiOut\<close> built so far (each
  entry is also printed when it is appended), the exception that ended the run, if any,
  and the file object. \<open>json.dump\<close> runs only when the loop ends without exception.\<close>

function main_loop :: "stream \<Rightarrow> (string \<times> py_value list) list \<Rightarrow>
    ((string \<times> py_value list) list \<times> py_error option) \<times> stream" where
  "main_loop ifile asciiOut =
     (case readStream ifile of (record, ifile') \<Rightarrow>
       (case extractData record of
          Inl e \<Rightarrow> ((asciiOut, Some e), ifile')
        | Inr data \<Rightarrow>
           (case appendName record of
              Inl e \<Rightarrow> ((asciiOut, Some e), ifile')
            | Inr name \<Rightarrow>
               (case record of
                  Minus1 \<Rightarrow> ((asciiOut @ [(name, data)], Some TypeError), ifile')
                | Rec r \<Rightarrow>
                   if rec_type r = 0x04 then ((asciiOut @ [(name, data)], None), ifile')
                   else main_loop ifile' (asciiOut @ [(name, data)])))))"
  by pat_completeness auto
termination
  by (relation "measure (\<lambda>(ifile, asciiOut). length (content ifile) - pos ifile)")
     (auto dest: readStream_Rec_advance [OF sym])

definition main :: "byte list \<Rightarrow> ((string \<times> py_value list) list \<times> py_error option) \<times> stream" where
  "main bs = main_loop \<lparr>content = bs, pos = 0\<rparr> []"

section \<open>Properties of \<open>readStream\<close>\<close>

lemma read_chunks_length:
  "length (fst (read_chunks n w s acc)) = length acc + n"
  by (induction n arbitrary: s acc) (simp_all add: split_beta)

lemma drop_nth_header:
  assumes "drop p xs = b0 # b1 # t # d # rest"
  shows "xs ! (p + 3) = d"
proof -
  have "p + 3 < length xs"
  proof (rule ccontr)
    assume "\<not> p + 3 < length xs"
    then have "length (drop p xs) \<le> 3" by simp
    then show False using assms by simp
  qed
  then have "xs ! (p + 3) = drop p xs ! 3" by simp
  then show ?thesis using assms by simp
qed

text \<open>C5, as stated: \<open>readStream\<close> fails with CorruptRecordLength when (length - 4) is
  not a multiple of the element width, never with a silently truncated result. It does
  not: for a record of declared length 7 and data type 0x02 (width 2) it returns the
  record with the single chunk that fits, and leaves the third payload byte unread.\<close>

theorem readStream_corrupt_length_counterexample:
  "dat_size 2 = Some 2 \<and> (7 - 4) mod 2 \<noteq> (0 :: int)
   \<and> fst (readStream \<lparr>content = [0x00, 0x07, 0x00, 0x02, 0x01, 0x02, 0x03], pos = 0\<rparr>)
       = Rec \<lparr>rec_size = 7, rec_type = 0, dat_type = 2, rec_data = [[0x01, 0x02]]\<rparr>"
  by code_simp

lemma read_rest:
  assumes "drop (pos s) (content s) = rest"
  shows "fst (read w s) = take w rest"
    and "drop (pos (snd (read w s))) (content (snd (read w s))) = drop w rest"
proof -
  show "fst (read w s) = take w rest"
    using assms by (simp add: read_def Let_def)
  have "drop (pos s + length (take w rest)) (content s)
      = drop (length (take w rest)) (drop (pos s) (content s))"
    by (simp only: drop_drop add.commute)
  also have "\<dots> = drop (length (take w rest)) rest"
    by (simp only: assms)
  also have "\<dots> = drop w rest"
    by (cases "w \<le> length rest") (simp_all add: min_def)
  finally show "drop (pos (snd (read w s))) (content (snd (read w s))) = drop w rest"
    using assms by (simp add: read_def Let_def)
qed

lemma read_chunks_concat:
  assumes "drop (pos s) (content s) = rest"
  shows "concat (fst (read_chunks n w s acc)) = concat acc @ take (n * w) rest"
  using assms
proof (induction n arbitrary: s acc rest)
  case 0
  then show ?case by simp
next
  case (Suc n)
  let ?s = "snd (read w s)"
  have c: "fst (read w s) = take w rest" by (rule read_rest(1) [OF Suc.prems])
  have d: "drop (pos ?s) (content ?s) = drop w rest" by (rule read_rest(2) [OF Suc.prems])
  have "concat (fst (read_chunks (Suc n) w s acc))
      = concat (fst (read_chunks n w ?s (acc @ [take w rest])))"
    using c by (simp add: split_beta seek_cur0_def)
  also have "\<dots> = concat (acc @ [take w rest]) @ take (n * w) (drop w rest)"
    by (rule Suc.IH [OF d])
  also have "\<dots> = concat acc @ take (Suc n * w) rest"
    by (simp add: take_add)
  finally show ?case .
qed

text \<open>C5, amended: the only failure signal of \<open>readStream\<close> is the value \<open>-1\<close>, and it
  is returned exactly when fewer than four bytes remain for the header or the data-type
  tag is not a key of the width table (0x00 to 0x06). A length that is not a multiple of
  the element width and a payload cut short by the end of the file are not failures:
  whenever the four header bytes are there and the tag has a width, the record is
  returned with the length, record type and data type of the header, its number of
  chunks is the floor of (length - 4) / width, and the chunks are, in order, the bytes
  that follow the header, as many of them as the file still holds.\<close>

theorem readStream_failure_iff:
  "(fst (readStream s) = Minus1 \<longleftrightarrow>
      length (content s) - pos s < 4 \<or> dat_size (sint (content s ! (pos s + 3))) = None)
   \<and> (\<forall>b0 b1 t d rest w.
         drop (pos s) (content s) = b0 # b1 # t # d # rest \<and> dat_size (sint d) = Some w \<longrightarrow>
         (\<exists>chunks.
            fst (readStream s) =
              Rec \<lparr>rec_size = sint (word_cat b0 b1 :: 16 word), rec_type = sint t,
                   dat_type = sint d, rec_data = chunks\<rparr>
            \<and> length chunks = nat ((sint (word_cat b0 b1 :: 16 word) - 4) div int w)
            \<and> concat chunks = take (nat ((sint (word_cat b0 b1 :: 16 word) - 4) div int w) * w) rest))"
proof (intro conjI allI impI)
  show "fst (readStream s) = Minus1 \<longleftrightarrow>
      length (content s) - pos s < 4 \<or> dat_size (sint (content s ! (pos s + 3))) = None"
  proof (cases "length (drop (pos s) (content s)) < 4")
    case True
    then obtain e s' where "readStream_try s = (Inl e, s')"
      using readStream_try_short by blast
    then have "fst (readStream s) = Minus1" by (simp add: readStream_def)
    then show ?thesis using True by simp
  next
    case False
    then obtain b0 b1 t d rest where xs: "drop (pos s) (content s) = b0 # b1 # t # d # rest"
      using long_list_cases [of "drop (pos s) (content s)"] by (auto simp: not_less)
    have d: "content s ! (pos s + 3) = d" by (rule drop_nth_header [OF xs])
    show ?thesis
    proof (cases "dat_size (sint d)")
      case None
      then have "fst (readStream s) = Minus1"
        by (simp add: readStream_def readStream_try_header [OF xs])
      then show ?thesis using None d by simp
    next
      case (Some w)
      then have "fst (readStream s) \<noteq> Minus1"
        by (simp add: readStream_def readStream_try_header [OF xs] split_beta)
      then show ?thesis using Some d False by simp
    qed
  qed
next
  fix b0 b1 t d rest w
  assume a: "drop (pos s) (content s) = b0 # b1 # t # d # rest \<and> dat_size (sint d) = Some w"
  then have xs: "drop (pos s) (content s) = b0 # b1 # t # d # rest"
    and w: "dat_size (sint d) = Some w" by simp_all
  let ?n = "nat ((sint (word_cat b0 b1 :: 16 word) - 4) div int w)"
  let ?s = "s\<lparr>pos := pos s + 4\<rparr>"
  let ?rc = "read_chunks ?n w ?s []"
  have dr: "drop (pos ?s) (content ?s) = rest"
    using drop_pos_add [of s "[b0, b1, t, d]" rest 4] xs by simp
  have "fst (readStream s) =
      Rec \<lparr>rec_size = sint (word_cat b0 b1 :: 16 word), rec_type = sint t,
           dat_type = sint d, rec_data = fst ?rc\<rparr>"
    by (simp add: readStream_def readStream_try_header [OF xs] w split_beta)
  moreover have "length (fst ?rc) = ?n" by (simp add: read_chunks_length)
  moreover have "concat (fst ?rc) = take (?n * w) rest"
    using read_chunks_concat [OF dr, of ?n w "[]"] by simp
  ultimately show "\<exists>chunks.
            fst (readStream s) =
              Rec \<lparr>rec_size = sint (word_cat b0 b1 :: 16 word), rec_type = sint t,
                   dat_type = sint d, rec_data = chunks\<rparr>
            \<and> length chunks = ?n \<and> concat chunks = take (?n * w) rest"
    by blast
qed

theorem readStream_failure_iff_witness:
  "fst (readStream \<lparr>content = [0x00, 0x06, 0x00], pos = 0\<rparr>) = Minus1
   \<and> fst (readStream \<lparr>content = [0x00, 0x06, 0x00, 0x07, 0x00, 0x01], pos = 0\<rparr>) = Minus1
   \<and> fst (readStream \<lparr>content = [0x00, 0x08, 0x00, 0x03, 0x01, 0x02], pos = 0\<rparr>) \<noteq> Minus1
   \<and> (\<exists>chunks.
        fst (readStream \<lparr>content = [0x00, 0x07, 0x00, 0x02, 0x01, 0x02, 0x03], pos = 0\<rparr>) =
          Rec \<lparr>rec_size = 7, rec_type = 0, dat_type = 2, rec_data = chunks\<rparr>
        \<and> length chunks = 1 \<and> concat chunks = [0x01, 0x02])"
proof -
  let ?s = "\<lparr>content = [0x00, 0x07, 0x00, 0x02, 0x01, 0x02, 0x03 :: byte], pos = 0\<rparr>"
  have xs: "drop (pos ?s) (content ?s) = 0x00 # 0x07 # 0x00 # 0x02 # [0x01, 0x02, 0x03]
      \<and> dat_size (sint (0x02 :: byte)) = Some 2"
    by (simp add: dat_size_def)
  have len: "sint (word_cat (0x00 :: byte) (0x07 :: byte) :: 16 word) = 7"
    by (simp add: word_cat_eq)
  have "\<exists>chunks.
        fst (readStream ?s) = Rec \<lparr>rec_size = 7, rec_type = 0, dat_type = 2, rec_data = chunks\<rparr>
        \<and> length chunks = 1 \<and> concat chunks = [0x01, 0x02]"
    using readStream_failure_iff [of ?s, THEN conjunct2, rule_format, OF xs] len by simp
  then show ?thesis
    using readStream_failure_iff [of "\<lparr>content = [0x00, 0x06, 0x00], pos = 0\<rparr>"]
      readStream_failure_iff [of "\<lparr>content = [0x00, 0x06, 0x00, 0x07, 0x00, 0x01], pos = 0\<rparr>"]
      readStream_failure_iff [of "\<lparr>content = [0x00, 0x08, 0x00, 0x03, 0x01, 0x02], pos = 0\<rparr>"]
    by (simp add: dat_size_def)
qed

lemma read_chunks_exact:
  assumes "drop (pos s) (content s) = payload @ rest" and "length payload = n * w"
  shows "\<exists>chunks. read_chunks n w s acc = (acc @ chunks, s\<lparr>pos := pos s + n * w\<rparr>)
           \<and> concat chunks = payload \<and> length chunks = n \<and> (\<forall>c \<in> set chunks. length c = w)"
  using assms
proof (induction n arbitrary: s acc payload)
  case 0
  then show ?case by simp
next
  case (Suc n)
  let ?c = "take w payload" and ?p = "drop w payload"
  let ?s = "s\<lparr>pos := pos s + w\<rparr>"
  have lc: "length ?c = w" using Suc.prems(2) by simp
  have split: "drop (pos s) (content s) = ?c @ (?p @ rest)"
    using Suc.prems(1) by simp
  have rd: "read w s = (?c, ?s)"
    by (rule read_exact [OF split lc])
  have dr: "drop (pos ?s) (content ?s) = ?p @ rest"
    using drop_pos_add [OF split lc] by simp
  have lp: "length ?p = n * w" using Suc.prems(2) by simp
  from Suc.IH [OF dr lp, of "acc @ [?c]"]
  obtain chunks where ch: "read_chunks n w ?s (acc @ [?c]) = ((acc @ [?c]) @ chunks, ?s\<lparr>pos := pos ?s + n * w\<rparr>)"
    and cc: "concat chunks = ?p" and ln: "length chunks = n"
    and lw: "\<forall>c \<in> set chunks. length c = w"
    by blast
  have "read_chunks (Suc n) w s acc = (acc @ (?c # chunks), s\<lparr>pos := pos s + Suc n * w\<rparr>)"
    using rd ch by (simp add: seek_cur0_def add.assoc)
  moreover have "concat (?c # chunks) = payload" using cc by simp
  moreover have "length (?c # chunks) = Suc n" using ln by simp
  moreover have "\<forall>c \<in> set (?c # chunks). length c = w" using lw lc by simp
  ultimately show ?case by blast
qed

lemma dat_size_pos: "dat_size d = Some w \<Longrightarrow> 0 < w"
  by (auto simp: dat_size_def split: if_splits)

text \<open>C4: for a valid record (declared length at least 4, length - 4 a multiple of the
  element width of its data-type tag, and that many payload bytes present in the file)
  \<open>readStream\<close> returns the record, its chunks are the length - 4 payload bytes that
  follow the header, in order and each of the element width, and the file position has
  advanced by exactly the declared length. The widths are those of the table in the
  code, where the tag 0x00 has width 1.\<close>

theorem readStream_valid_record:
  assumes bytes: "drop (pos s) (content s) = b0 # b1 # t # d # payload @ rest"
    and len: "len = sint (word_cat b0 b1 :: 16 word)"
    and width: "dat_size (sint d) = Some w"
    and ge4: "4 \<le> len"
    and multiple: "(len - 4) mod int w = 0"
    and remaining: "int (length payload) = len - 4"
  shows "\<exists>chunks.
     readStream s =
       (Rec \<lparr>rec_size = len, rec_type = sint t, dat_type = sint d, rec_data = chunks\<rparr>,
        s\<lparr>pos := pos s + nat len\<rparr>)
     \<and> concat chunks = payload \<and> (\<forall>c \<in> set chunks. length c = w)"
proof -
  let ?n = "nat ((len - 4) div int w)"
  let ?s = "s\<lparr>pos := pos s + 4\<rparr>"
  have wpos: "0 < w" by (rule dat_size_pos [OF width])
  have "(len - 4) div int w * int w = len - 4"
    using multiple by (simp add: mod_eq_0_iff_dvd)
  moreover have "0 \<le> (len - 4) div int w"
    using ge4 wpos by (simp add: pos_imp_zdiv_nonneg_iff)
  ultimately have "int (?n * w) = len - 4" by simp
  then have lp: "length payload = ?n * w" using remaining by linarith
  have dr: "drop (pos ?s) (content ?s) = payload @ rest"
    using drop_pos_add [of s "[b0, b1, t, d]" "payload @ rest" 4] bytes by simp
  from read_chunks_exact [OF dr lp, of "[]"]
  obtain chunks where ch: "read_chunks ?n w ?s [] = (chunks, ?s\<lparr>pos := pos ?s + ?n * w\<rparr>)"
    and cc: "concat chunks = payload" and lw: "\<forall>c \<in> set chunks. length c = w"
    by auto
  have "4 + ?n * w = nat len" using \<open>int (?n * w) = len - 4\<close> ge4 by linarith
  then have fin: "?s\<lparr>pos := pos ?s + ?n * w\<rparr> = s\<lparr>pos := pos s + nat len\<rparr>"
    by (simp add: add.assoc)
  have "readStream s =
       (Rec \<lparr>rec_size = len, rec_type = sint t, dat_type = sint d, rec_data = chunks\<rparr>,
        s\<lparr>pos := pos s + nat len\<rparr>)"
    using ch fin
    by (simp add: readStream_def readStream_try_header [OF bytes] width len [symmetric])
  then show ?thesis using cc lw by blast
qed

theorem readStream_valid_record_witness:
  "\<exists>chunks.
     readStream \<lparr>content = [0x00, 0x08, 0x00, 0x03, 0x01, 0x02, 0x03, 0x04, 0xFF], pos = 0\<rparr> =
       (Rec \<lparr>rec_size = 8, rec_type = 0, dat_type = 3, rec_data = chunks\<rparr>,
        \<lparr>content = [0x00, 0x08, 0x00, 0x03, 0x01, 0x02, 0x03, 0x04, 0xFF], pos = 8\<rparr>)
     \<and> concat chunks = [0x01, 0x02, 0x03, 0x04] \<and> (\<forall>c \<in> set chunks. length c = 4)"
proof -
  let ?s = "\<lparr>content = [0x00, 0x08, 0x00, 0x03, 0x01, 0x02, 0x03, 0x04, 0xFF :: byte], pos = 0\<rparr>"
  have bytes: "drop (pos ?s) (content ?s) = 0x00 # 0x08 # 0x00 # 0x03 # [0x01, 0x02, 0x03, 0x04] @ [0xFF]"
    by simp
  have len: "(8 :: int) = sint (word_cat (0x00 :: byte) (0x08 :: byte) :: 16 word)"
    by (simp add: word_cat_eq)
  have width: "dat_size (sint (0x03 :: byte)) = Some 4"
    by (simp add: dat_size_def)
  show ?thesis
    using readStream_valid_record [OF bytes len width] by simp
qed

section \<open>Properties of \<open>main\<close>\<close>

lemma readStream_record_at:
  assumes bytes: "drop (pos s) (content s) = b0 # b1 # t # d # payload @ rest"
    and len: "len = sint (word_cat b0 b1 :: 16 word)"
    and width: "dat_size (sint d) = Some w"
    and ge4: "4 \<le> len"
    and multiple: "(len - 4) mod int w = 0"
    and remaining: "int (length payload) = len - 4"
  shows "\<exists>chunks.
     readStream s =
       (Rec \<lparr>rec_size = len, rec_type = sint t, dat_type = sint d, rec_data = chunks\<rparr>,
        s\<lparr>pos := pos s + nat len\<rparr>)
     \<and> concat chunks = payload \<and> (\<forall>c \<in> set chunks. length c = w)"
proof -
  let ?n = "nat ((len - 4) div int w)"
  let ?s = "s\<lparr>pos := pos s + 4\<rparr>"
  have wpos: "0 < w" by (rule dat_size_pos [OF width])
  have "(len - 4) div int w * int w = len - 4"
    using multiple by (simp add: mod_eq_0_iff_dvd)
  moreover have "0 \<le> (len - 4) div int w"
    using ge4 wpos by (simp add: pos_imp_zdiv_nonneg_iff)
  ultimately have nw: "int (?n * w) = len - 4" by simp
  then have lp: "length payload = ?n * w" using remaining by linarith
  have dr: "drop (pos ?s) (content ?s) = payload @ rest"
    using drop_pos_add [of s "[b0, b1, t, d]" "payload @ rest" 4] bytes by simp
  from read_chunks_exact [OF dr lp, of "[]"]
  obtain chunks where ch: "read_chunks ?n w ?s [] = (chunks, ?s\<lparr>pos := pos ?s + ?n * w\<rparr>)"
    and cc: "concat chunks = payload" and lw: "\<forall>c \<in> set chunks. length c = w"
    by auto
  have "4 + ?n * w = nat len" using nw ge4 by linarith
  then have fin: "?s\<lparr>pos := pos ?s + ?n * w\<rparr> = s\<lparr>pos := pos s + nat len\<rparr>"
    by (simp add: add.assoc)
  have "readStream s =
       (Rec \<lparr>rec_size = len, rec_type = sint t, dat_type = sint d, rec_data = chunks\<rparr>,
        s\<lparr>pos := pos s + nat len\<rparr>)"
    using ch fin
    by (simp add: readStream_def readStream_try_header [OF bytes] width len [symmetric])
  then show ?thesis using cc lw by blast
qed

lemma chunks_unique:
  assumes "concat xs = concat ys" and "0 < w"
    and "\<forall>x \<in> set xs. length x = w" and "\<forall>y \<in> set ys. length y = w"
  shows "xs = ys"
  using assms
proof (induction xs arbitrary: ys)
  case Nil
  show ?case
  proof (cases ys)
    case Nil then show ?thesis by simp
  next
    case (Cons y ys')
    then have "length y = w" using Nil.prems by simp
    then have "y \<noteq> []" using \<open>0 < w\<close> by auto
    then show ?thesis using Nil.prems Cons by simp
  qed
next
  case (Cons x xs)
  have lx: "length x = w" using Cons.prems by simp
  show ?case
  proof (cases ys)
    case Nil
    have "x \<noteq> []" using lx \<open>0 < w\<close> by auto
    then show ?thesis using Cons.prems Nil by simp
  next
    case (Cons y ys')
    have ly: "length y = w" using Cons.prems(4) Cons by simp
    have "x @ concat xs = y @ concat ys'" using Cons.prems(1) Cons by simp
    then have "x = y \<and> concat xs = concat ys'" using lx ly by simp
    moreover have "xs = ys'" if "concat xs = concat ys'"
      using Cons.IH [OF that \<open>0 < w\<close>] Cons.prems(3,4) Cons by simp
    ultimately show ?thesis using Cons by simp
  qed
qed

lemma name_list_ENDLIB: "name_list t = Some ''ENDLIB'' \<longleftrightarrow> t = 4"
  by (auto simp: name_list_def split: if_splits)

lemma extractData_no_payload:
  "extractData (Rec \<lparr>rec_size = 4, rec_type = t, dat_type = d, rec_data = []\<rparr>) = Inr []"
  by (simp add: extractData_def)

lemma drop_length_append: "length xs = n \<Longrightarrow> drop n (xs @ ys) = ys"
  by auto

lemma main_loop_done:
  assumes "fst (main_loop s acc) = (out, None)"
  shows "\<exists>new. out = acc @ new \<and> new \<noteq> [] \<and> fst (last new) = ''ENDLIB''
           \<and> (\<forall>e \<in> set (butlast new). fst e \<noteq> ''ENDLIB'')"
  using assms
proof (induction s acc rule: main_loop.induct)
  case (1 ifile asciiOut)
  obtain rcd ifile' where rs: "readStream ifile = (rcd, ifile')"
    by (cases "readStream ifile")
  show ?case
  proof (cases "extractData rcd")
    case (Inl e)
    then show ?thesis using "1.prems" rs by (simp add: main_loop.simps [of ifile])
  next
    case (Inr data)
    note ed = Inr
    show ?thesis
    proof (cases "appendName rcd")
      case (Inl e)
      then show ?thesis using "1.prems" rs ed by (simp add: main_loop.simps [of ifile])
    next
      case (Inr name)
      note an = Inr
      show ?thesis
      proof (cases rcd)
        case Minus1
        then show ?thesis using "1.prems" rs ed an by (simp add: main_loop.simps [of ifile])
      next
        case (Rec r)
        have nm: "name_list (rec_type r) = Some name"
          using an Rec by (simp add: appendName_def split: option.splits)
        show ?thesis
        proof (cases "rec_type r = 4")
          case True
          then have "name = ''ENDLIB''" using nm name_list_ENDLIB [of "rec_type r"] by simp
          moreover have "out = asciiOut @ [(name, data)]"
            using "1.prems" rs ed an Rec True by (simp add: main_loop.simps [of ifile])
          ultimately show ?thesis by simp
        next
          case False
          then have ne: "name \<noteq> ''ENDLIB''" using nm name_list_ENDLIB [of "rec_type r"] by auto
          have "fst (main_loop ifile' (asciiOut @ [(name, data)])) = (out, None)"
            using "1.prems" rs ed an Rec False by (simp add: main_loop.simps [of ifile])
          from "1.IH" [OF rs [symmetric] ed an Rec False this]
          obtain new where n: "out = (asciiOut @ [(name, data)]) @ new" "new \<noteq> []"
            "fst (last new) = ''ENDLIB''" "\<forall>e \<in> set (butlast new). fst e \<noteq> ''ENDLIB''"
            by blast
          have "out = asciiOut @ ((name, data) # new)" using n(1) by simp
          moreover have "fst (last ((name, data) # new)) = ''ENDLIB''" using n(2,3) by simp
          moreover have "\<forall>e \<in> set (butlast ((name, data) # new)). fst e \<noteq> ''ENDLIB''"
            using n(2,4) ne by simp
          ultimately show ?thesis by blast
        qed
      qed
    qed
  qed
qed

text \<open>C8: a stream made of exactly a HEADER record (record type 0x00, a valid record
  whose payload \<open>extractData\<close> decodes to \<open>values\<close>) followed by an ENDLIB record (record
  type 0x04, length 4, no payload, any data type of the width table) makes \<open>main\<close> leave
  its loop without an exception with exactly the two entries \<open>('HEADER', values)\<close> and
  \<open>('ENDLIB', [])\<close>. And whenever \<open>main\<close> leaves its loop without an exception, on any
  input, the output is not empty, its last entry is the ENDLIB record's and no earlier
  entry is: the loop ends normally only at a record of type 0x04, whose entry has been
  appended.\<close>

theorem main_header_endlib:
  assumes len: "len = sint (word_cat b0 b1 :: 16 word)"
    and width: "dat_size (sint d) = Some w"
    and ge4: "4 \<le> len"
    and multiple: "(len - 4) mod int w = 0"
    and remaining: "int (length payload) = len - 4"
    and decodes: "extractData (fst (readStream \<lparr>content = b0 # b1 # 0x00 # d # payload, pos = 0\<rparr>))
        = Inr values"
    and endlib: "dat_size (sint de) = Some we"
  shows "fst (main ((b0 # b1 # 0x00 # d # payload) @ [0x00, 0x04, 0x04, de]))
           = ([(''HEADER'', values), (''ENDLIB'', [])], None)
     \<and> (\<forall>bs out. fst (main bs) = (out, None) \<longrightarrow>
           out \<noteq> [] \<and> fst (last out) = ''ENDLIB''
           \<and> (\<forall>e \<in> set (butlast out). fst e \<noteq> ''ENDLIB''))"
proof
  let ?hdr = "b0 # b1 # 0x00 # d # payload"
  let ?end = "[0x00, 0x04, 0x04, de]"
  define s0 where "s0 = \<lparr>content = ?hdr @ ?end, pos = 0\<rparr>"
  define s1 where "s1 = s0\<lparr>pos := pos s0 + nat len\<rparr>"
  define h where "h = \<lparr>content = ?hdr, pos = 0\<rparr>"
  have wpos: "0 < w" by (rule dat_size_pos [OF width])
  have b0: "drop (pos s0) (content s0) = b0 # b1 # 0x00 # d # payload @ ?end"
    by (simp add: s0_def)
  have bh: "drop (pos h) (content h) = b0 # b1 # 0x00 # d # payload @ []"
    by (simp add: h_def)
  from readStream_record_at [OF b0 len width ge4 multiple remaining]
  obtain chunks where r0: "readStream s0 =
       (Rec \<lparr>rec_size = len, rec_type = sint (0x00 :: byte), dat_type = sint d, rec_data = chunks\<rparr>,
        s1)"
    and c0: "concat chunks = payload" "\<forall>c \<in> set chunks. length c = w"
    unfolding s1_def by blast
  from readStream_record_at [OF bh len width ge4 multiple remaining]
  obtain chunks' where rh: "fst (readStream h) =
       Rec \<lparr>rec_size = len, rec_type = sint (0x00 :: byte), dat_type = sint d, rec_data = chunks'\<rparr>"
    and ch: "concat chunks' = payload" "\<forall>c \<in> set chunks'. length c = w"
    by force
  have same: "chunks = chunks'"
    by (rule chunks_unique [OF _ wpos c0(2) ch(2)]) (simp add: c0(1) ch(1))
  define r where "r = \<lparr>rec_size = len, rec_type = 0, dat_type = sint d, rec_data = chunks\<rparr>"
  have r0': "readStream s0 = (Rec r, s1)" using r0 by (simp add: r_def)
  have ed0: "extractData (Rec r) = Inr values"
    using decodes rh same by (simp add: r_def h_def)
  have an0: "appendName (Rec r) = Inr ''HEADER''"
    by (simp add: appendName_def name_list_def r_def)
  have rt0: "rec_type r \<noteq> 4" by (simp add: r_def)
  have lh: "length ?hdr = nat len" using remaining ge4 by simp
  have "drop (nat len) (?hdr @ ?end) = ?end"
    by (rule drop_length_append [OF lh])
  then have b1: "drop (pos s1) (content s1) = 0x00 # 0x04 # 0x04 # de # []"
    by (simp add: s1_def s0_def)
  have l4: "sint (word_cat (0x00 :: byte) (0x04 :: byte) :: 16 word) = 4"
    by (simp add: word_cat_eq)
  define e where "e = \<lparr>rec_size = 4, rec_type = 4, dat_type = sint de, rec_data = []\<rparr>"
  have "fst (readStream_try s1) = Inr e"
    by (simp add: readStream_try_header [OF b1] endlib l4 e_def)
  then have r1: "fst (readStream s1) = Rec e"
    by (cases "readStream_try s1") (simp add: readStream_def)
  obtain s2 where r1': "readStream s1 = (Rec e, s2)"
    using r1 by (cases "readStream s1") simp
  have ed1: "extractData (Rec e) = Inr []"
    unfolding e_def by (rule extractData_no_payload)
  have an1: "appendName (Rec e) = Inr ''ENDLIB''"
    by (simp add: appendName_def name_list_def e_def)
  have rt1: "rec_type e = 4" by (simp add: e_def)
  have step1: "fst (main_loop s1 [(''HEADER'', values)])
      = ([(''HEADER'', values), (''ENDLIB'', [])], None)"
    by (simp add: main_loop.simps [of s1] r1' ed1 an1 rt1)
  have "fst (main_loop s0 []) = fst (main_loop s1 [(''HEADER'', values)])"
    by (simp add: main_loop.simps [of s0] r0' ed0 an0 rt0)
  then show "fst (main (?hdr @ ?end)) = ([(''HEADER'', values), (''ENDLIB'', [])], None)"
    using step1 by (simp add: main_def s0_def)
next
  show "\<forall>bs out. fst (main bs) = (out, None) \<longrightarrow>
           out \<noteq> [] \<and> fst (last out) = ''ENDLIB''
           \<and> (\<forall>e \<in> set (butlast out). fst e \<noteq> ''ENDLIB'')"
  proof (intro allI impI)
    fix bs out
    assume "fst (main bs) = (out, None)"
    then have "fst (main_loop \<lparr>content = bs, pos = 0\<rparr> []) = (out, None)"
      by (simp add: main_def)
    from main_loop_done [OF this] show "out \<noteq> [] \<and> fst (last out) = ''ENDLIB''
           \<and> (\<forall>e \<in> set (butlast out). fst e \<noteq> ''ENDLIB'')"
      by auto
  qed
qed

theorem main_header_endlib_witness:
  "fst (main [0x00, 0x06, 0x00, 0x02, 0x00, 0x03, 0x00, 0x04, 0x04, 0x00])
     = ([(''HEADER'', [IntV 3]), (''ENDLIB'', [])], None)
   \<and> [(''HEADER'', [IntV 3]), (''ENDLIB'', [] :: py_value list)] \<noteq> []
   \<and> fst (last [(''HEADER'', [IntV 3]), (''ENDLIB'', [])]) = ''ENDLIB''"
proof -
  have len: "(6 :: int) = sint (word_cat (0x00 :: byte) (0x06 :: byte) :: 16 word)"
    by (simp add: word_cat_eq)
  have width: "dat_size (sint (0x02 :: byte)) = Some 2"
    by (simp add: dat_size_def)
  have ge4: "(4 :: int) \<le> 6" by simp
  have multiple: "((6 :: int) - 4) mod int 2 = 0" by simp
  have remaining: "int (length [0x00, 0x03 :: byte]) = 6 - 4" by simp
  have decodes: "extractData (fst (readStream
        \<lparr>content = 0x00 # 0x06 # 0x00 # 0x02 # [0x00, 0x03], pos = 0\<rparr>)) = Inr [IntV 3]"
    by code_simp
  have endlib: "dat_size (sint (0x00 :: byte)) = Some 1"
    by (simp add: dat_size_def)
  show ?thesis
    using main_header_endlib [OF len width ge4 multiple remaining decodes endlib] by simp
qed




section \<open>Properties of \<open>extractData\<close>\<close>

lemma extract_loop_ok:
  assumes "\<forall>i \<in> set is. i < length chunks \<and> f (chunks ! i) = Inr (g (chunks ! i))"
  shows "extract_loop f chunks is data = Inr (data @ map (\<lambda>i. g (chunks ! i)) is)"
  using assms
proof (induction "is" arbitrary: data)
  case Nil
  show ?case by simp
next
  case (Cons i "is")
  have i: "i < length chunks" "f (chunks ! i) = Inr (g (chunks ! i))"
    using Cons.prems by simp_all
  have "extract_loop f chunks (i # is) data = extract_loop f chunks is (data @ [g (chunks ! i)])"
    using i by (simp add: get_item_def)
  also have "\<dots> = Inr ((data @ [g (chunks ! i)]) @ map (\<lambda>i. g (chunks ! i)) is)"
    using Cons.prems by (intro Cons.IH) simp
  finally show ?case by simp
qed

lemma extract_loop_err:
  assumes "\<forall>i \<in> set is. i < length chunks \<and> (f (chunks ! i) = Inl e \<or> (\<exists>v. f (chunks ! i) = Inr v))"
    and "\<exists>i \<in> set is. f (chunks ! i) = Inl e"
  shows "extract_loop f chunks is data = Inl e"
  using assms
proof (induction "is" arbitrary: data)
  case Nil
  then show ?case by simp
next
  case (Cons i "is")
  have i: "i < length chunks" using Cons.prems(1) by simp
  show ?case
  proof (cases "f (chunks ! i)")
    case (Inl e')
    then have "e' = e" using Cons.prems(1) by auto
    then show ?thesis using i Inl by (simp add: get_item_def)
  next
    case (Inr v)
    then have ex: "\<exists>i \<in> set is. f (chunks ! i) = Inl e" using Cons.prems(2) by auto
    have "extract_loop f chunks is (data @ [v]) = Inl e"
      using Cons.prems(1) by (intro Cons.IH [OF _ ex]) simp
    then show ?thesis using i Inr by (simp add: get_item_def)
  qed
qed

lemma map_nth_upt: "map (\<lambda>i. g (xs ! i)) [0..<length xs] = map g xs"
  by (rule nth_equalityI) simp_all

lemma decode_char_single:
  "decode_char [b] = (if b < 0x80 then Inr (StrV [char_of (unat b)]) else Inl UnicodeDecodeError)"
  by (simp add: decode_char_def unpack_c_def decode_utf8_1_def map_result_def)

text \<open>C7: for a record of the default dispatch case (its data type is none of 0x00..0x05;
  the ASCII tag 0x06 is the one that \<open>readStream\<close> can return) whose payload is split
  into the one-byte chunks of its declared length, \<open>extractData\<close> raises
  UnicodeDecodeError if and only if some payload byte is not below 0x80 (not a valid
  UTF-8 sequence on its own), and otherwise returns the one-character strings of the
  payload bytes, one for each chunk, in order.\<close>

theorem extractData_ascii:
  assumes tag: "dat_type r \<notin> {0x00, 0x01, 0x02, 0x03, 0x04, 0x05}"
    and chunks: "rec_data r = map (\<lambda>b. [b]) payload"
    and len: "rec_size r = 4 + int (length payload)"
  shows "(extractData (Rec r) = Inl UnicodeDecodeError \<longleftrightarrow> (\<exists>b \<in> set payload. \<not> b < 0x80))
       \<and> ((\<forall>b \<in> set payload. b < 0x80) \<longrightarrow>
            extractData (Rec r) = Inr (map (\<lambda>b. StrV [char_of (unat b)]) payload))"
proof -
  let ?cs = "map (\<lambda>b. [b]) payload"
  have n: "nat (rec_size r - 4) = length ?cs" using len by simp
  have ed: "extractData (Rec r) = extract_loop decode_char ?cs [0..<length ?cs] []"
    using tag by (simp add: extractData_def chunks n)
  have nth: "?cs ! i = [payload ! i]" if "i < length payload" for i
    using that by simp
  show ?thesis
  proof (cases "\<forall>b \<in> set payload. b < 0x80")
    case True
    have "\<forall>i \<in> set [0..<length ?cs]. i < length ?cs \<and>
            decode_char (?cs ! i) = Inr ((\<lambda>c. StrV [char_of (unat (hd c))]) (?cs ! i))"
      using True by (simp add: decode_char_single)
    from extract_loop_ok [OF this, of "[]"]
    have "extractData (Rec r) = Inr (map (\<lambda>i. StrV [char_of (unat (hd (?cs ! i)))]) [0..<length ?cs])"
      by (simp only: ed append_Nil)
    also have "map (\<lambda>i. StrV [char_of (unat (hd (?cs ! i)))]) [0..<length ?cs]
        = map (\<lambda>c. StrV [char_of (unat (hd c))]) ?cs"
      by (rule map_nth_upt)
    also have "\<dots> = map (\<lambda>b. StrV [char_of (unat b)]) payload"
      by (simp add: comp_def)
    finally show ?thesis using True by auto
  next
    case False
    then obtain i where i: "i < length payload" "\<not> payload ! i < 0x80"
      by (auto simp: in_set_conv_nth)
    have a: "\<forall>i \<in> set [0..<length ?cs]. i < length ?cs \<and>
            (decode_char (?cs ! i) = Inl UnicodeDecodeError \<or> (\<exists>v. decode_char (?cs ! i) = Inr v))"
      by (simp add: decode_char_single)
    have b: "\<exists>i \<in> set [0..<length ?cs]. decode_char (?cs ! i) = Inl UnicodeDecodeError"
      using i by (intro bexI [of _ i]) (simp_all add: decode_char_single)
    have "extractData (Rec r) = Inl UnicodeDecodeError"
      using extract_loop_err [OF a b, of "[]"] by (simp only: ed)
    then show ?thesis using False by auto
  qed
qed

theorem extractData_ascii_witness:
  "extractData (Rec \<lparr>rec_size = 6, rec_type = 0x06, dat_type = 0x06, rec_data = [[0x41], [0x62]]\<rparr>)
     = Inr [StrV ''A'', StrV ''b'']
   \<and> extractData (Rec \<lparr>rec_size = 6, rec_type = 0x06, dat_type = 0x06, rec_data = [[0x41], [0xC3]]\<rparr>)
     = Inl UnicodeDecodeError"
proof -
  let ?r = "\<lparr>rec_size = 6, rec_type = 0x06, dat_type = 0x06, rec_data = [[0x41], [0x62 :: byte]]\<rparr>"
  let ?q = "\<lparr>rec_size = 6, rec_type = 0x06, dat_type = 0x06, rec_data = [[0x41], [0xC3 :: byte]]\<rparr>"
  have tag: "dat_type ?r \<notin> {0x00, 0x01, 0x02, 0x03, 0x04, 0x05}" by simp
  have chunks: "rec_data ?r = map (\<lambda>b. [b]) [0x41, 0x62]" by simp
  have len: "rec_size ?r = 4 + int (length [0x41, 0x62 :: byte])" by simp
  have tag': "dat_type ?q \<notin> {0x00, 0x01, 0x02, 0x03, 0x04, 0x05}" by simp
  have chunks': "rec_data ?q = map (\<lambda>b. [b]) [0x41, 0xC3]" by simp
  have len': "rec_size ?q = 4 + int (length [0x41, 0xC3 :: byte])" by simp
  have c: "char_of (65 :: nat) = CHR ''A''" "char_of (98 :: nat) = CHR ''b''" by code_simp+
  show ?thesis
    using extractData_ascii [OF tag chunks len] extractData_ascii [OF tag' chunks' len']
    by (simp add: c)
qed

subsection \<open>Words as numbers\<close>






















end
